theory Spec2Isabelle
  imports Main "HOL-Library.Multiset"
begin

section \<open>The heuristic email-risk scoring engine of EmailDetector.tsx\<close>

text \<open>
  The theory embeds the pure function \<open>detect\<close> of
  \<^verbatim>\<open>src/src/components/EmailDetector.tsx\<close> together with the helpers it calls and the
  part of the React component that builds its argument.

  Strings are \<^typ>\<open>string\<close>. The embedding is exact on ASCII text: \<open>toLowerCase\<close>
  maps \<open>A\<close>..\<open>Z\<close> only, and the regular-expression classes \<open>\s\<close> and \<open>\w\<close> are
  their ASCII members. The one non-ASCII character of the source, the sign U+2260 in the
  From/Reply-To reason, is written as its three UTF-8 bytes.

  The URL constructor of the browser and the package \<open>tldts\<close> are not code of the
  repository. They are parameters of the model (record \<open>extern\<close>): every theorem
  quantified over \<open>env\<close> holds whatever these functions answer.
\<close>

subsection \<open>String primitives of JavaScript\<close>

definition lower_char :: "char \<Rightarrow> char" where
  "lower_char c =
     (let n = (of_char c :: nat) in if 65 \<le> n \<and> n \<le> 90 then char_of (n + 32) else c)"

definition toLowerCase :: "string \<Rightarrow> string" where
  "toLowerCase s = map lower_char s"

text \<open>The class \<open>\s\<close>: tab, line feed, vertical tab, form feed, carriage return, space.\<close>

definition is_space :: "char \<Rightarrow> bool" where
  "is_space c = (c \<in> set [CHR 0x09, CHR 0x0A, CHR 0x0B, CHR 0x0C, CHR 0x0D, CHR 0x20])"

text \<open>The class \<open>\w\<close>: letters, digits and the underscore.\<close>

definition is_word :: "char \<Rightarrow> bool" where
  "is_word c =
     (let n = (of_char c :: nat) in
        (48 \<le> n \<and> n \<le> 57) \<or> (65 \<le> n \<and> n \<le> 90) \<or> n = 95 \<or> (97 \<le> n \<and> n \<le> 122))"

text \<open>The set \<open>[a-z]\<close>.\<close>

definition is_lower_letter :: "char \<Rightarrow> bool" where
  "is_lower_letter c = (let n = (of_char c :: nat) in 97 \<le> n \<and> n \<le> 122)"

text \<open>Line terminators, which the regular-expression dot does not match.\<close>

definition is_line_terminator :: "char \<Rightarrow> bool" where
  "is_line_terminator c = (c = CHR 0x0A \<or> c = CHR 0x0D)"

definition trim :: "string \<Rightarrow> string" where
  "trim s = rev (dropWhile is_space (rev (dropWhile is_space s)))"

fun startsWith :: "string \<Rightarrow> string \<Rightarrow> bool" where
  "startsWith s [] = True"
| "startsWith [] (p # ps) = False"
| "startsWith (c # cs) (p # ps) = (c = p \<and> startsWith cs ps)"

definition endsWith :: "string \<Rightarrow> string \<Rightarrow> bool" where
  "endsWith s p = startsWith (rev s) (rev p)"

text \<open>
  An unanchored regular-expression search tries every start position from the left, the
  end of the string included.
\<close>

fun search :: "(string \<Rightarrow> bool) \<Rightarrow> string \<Rightarrow> bool" where
  "search p [] = p []"
| "search p (c # cs) = (p (c # cs) \<or> search p cs)"

definition str_includes :: "string \<Rightarrow> string \<Rightarrow> bool" where
  "str_includes s p = search (\<lambda>r. startsWith r p) s"

text \<open>
  A literal of a regular expression with the flag \<open>i\<close>, anchored at the start of \<open>s\<close>;
  the literal \<open>p\<close> is given in lower case.
\<close>

definition ci_prefix :: "string \<Rightarrow> string \<Rightarrow> bool" where
  "ci_prefix p s = (toLowerCase (take (length p) s) = p)"

text \<open>
  A global regular expression is run from the left: after a match of \<open>n\<close> characters
  the scan resumes behind the match, after a failure one character further. The matcher
  \<open>m\<close> answers the captured value and the length of the match; every expression of this
  program matches at least one character.
\<close>

fun scan_all :: "(string \<Rightarrow> ('a \<times> nat) option) \<Rightarrow> string \<Rightarrow> 'a list" where
  "scan_all m [] = []"
| "scan_all m (c # cs) =
     (case m (c # cs) of
        None \<Rightarrow> scan_all m cs
      | Some (x, n) \<Rightarrow> x # scan_all m (drop (n - 1) cs))"

text \<open>
  Backtracking of a greedy \<open>[^>]*\<close>: the continuation \<open>f\<close> is tried with \<open>j\<close>
  characters taken, then \<open>j - 1\<close>, down to none.
\<close>

fun try_down :: "(nat \<Rightarrow> 'a option) \<Rightarrow> nat \<Rightarrow> (nat \<times> 'a) option" where
  "try_down f 0 = (case f 0 of None \<Rightarrow> None | Some x \<Rightarrow> Some (0, x))"
| "try_down f (Suc j) = (case f (Suc j) of None \<Rightarrow> try_down f j | Some x \<Rightarrow> Some (Suc j, x))"

text \<open>\<open>x || y\<close> on a value that is a string or null: null and the empty string are falsy.\<close>

definition js_or :: "string option \<Rightarrow> string \<Rightarrow> string" where
  "js_or x y = (case x of None \<Rightarrow> y | Some v \<Rightarrow> if v = [] then y else v)"

subsection \<open>Types and configuration\<close>

record options =
  treatFreeProvidersAsSuspicious :: bool
  strictBrandLookalikes :: bool
  threshold :: int

record DetectionInput =
  subject :: string
  body :: string
  fromEmail :: string
  replyToEmail :: string
  authResults :: string
  attachments :: "string list"
  options :: options

datatype category = LikelySafe | NeedsReview | Suspicious

record DetectionResult =
  score :: int
  reasons :: "string list"
  category :: category

record weights =
  keyword :: int
  suspiciousUrl :: int
  longDomain :: int
  punycode :: int
  brandLookalike :: int
  freeProviderAsCorp :: int
  linkMismatch :: int
  dangerousAttachment :: int
  macroAttachment :: int
  doubleExtension :: int
  replyToMismatch :: int
  spfFailOrMissing :: int

definition WEIGHTS :: weights where
  "WEIGHTS = \<lparr> keyword = 2, suspiciousUrl = 3, longDomain = 2, punycode = 3,
     brandLookalike = 4, freeProviderAsCorp = 2, linkMismatch = 3, dangerousAttachment = 5,
     macroAttachment = 4, doubleExtension = 5, replyToMismatch = 4, spfFailOrMissing = 3 \<rparr>"

definition PHISHING_KEYWORDS :: "string list" where
  "PHISHING_KEYWORDS = [''urgent'', ''verify'', ''account locked'', ''password reset'',
     ''click here'', ''last warning'', ''act now'', ''invoice attached'', ''bank transfer'',
     ''payment declined'', ''confirm your account'']"

definition DANGEROUS_EXTS :: "string list" where
  "DANGEROUS_EXTS = [''.exe'', ''.scr'', ''.bat'', ''.vbs'', ''.js'', ''.cmd'', ''.pif'', ''.jar'']"

definition RISKY_OFFICE_EXTS :: "string list" where
  "RISKY_OFFICE_EXTS = [''.docm'', ''.xlsm'', ''.pptm'']"

definition FREE_PROVIDERS :: "string list" where
  "FREE_PROVIDERS = [''gmail.com'', ''yahoo.com'', ''outlook.com'', ''hotmail.com'',
     ''live.com'', ''icloud.com'', ''aol.com'']"

definition HIGH_VALUE_BRANDS :: "string list" where
  "HIGH_VALUE_BRANDS = [''paypal.com'', ''microsoft.com'', ''apple.com'', ''amazon.com'',
     ''google.com'', ''netflix.com'', ''bankofamerica.com'', ''chase.com'']"

subsection \<open>The external functions\<close>

text \<open>
  \<open>new_URL_hostname s\<close> stands for \<open>new URL(s).hostname\<close>, which throws a TypeError on a
  string that is no URL; \<open>getDomain\<close> for the function of that name of \<open>tldts\<close> (the
  registered domain, or null); \<open>parseTld_domain s\<close> for \<open>parse(s).domain\<close> of \<open>tldts\<close>.
\<close>

datatype js_error = TypeError

record extern =
  new_URL_hostname :: "string \<Rightarrow> js_error + string"
  getDomain :: "string \<Rightarrow> string option"
  parseTld_domain :: "string \<Rightarrow> string option"

subsection \<open>Helpers\<close>

definition normalizeStr :: "string \<Rightarrow> string" where
  "normalizeStr s = trim (toLowerCase s)"

text \<open>
  The expression \<open>/@([^>\s]+)>?$|@([^\s]+)/\<close> behind an \<open>@\<close>. First alternative: the
  longest run without \<open>>\<close> and white space, which must reach the end of the string or a
  final \<open>>\<close> (a shorter run is followed by a character of the run and fails as well).
  Second alternative: the longest run without white space.
\<close>

definition email_alt1 :: "string \<Rightarrow> string option" where
  "email_alt1 r =
     (let run = takeWhile (\<lambda>c. c \<noteq> CHR ''>'' \<and> \<not> is_space c) r;
          after = drop (length run) r
      in if run \<noteq> [] \<and> (after = [] \<or> after = ''>'') then Some run else None)"

definition email_alt2 :: "string \<Rightarrow> string option" where
  "email_alt2 r =
     (let run = takeWhile (\<lambda>c. \<not> is_space c) r in if run \<noteq> [] then Some run else None)"

text \<open>The leftmost match; the result is \<open>m[1] || m[2]\<close>.\<close>

fun email_match :: "string \<Rightarrow> string option" where
  "email_match [] = None"
| "email_match (c # cs) =
     (if c = CHR ''@'' then
        (case email_alt1 cs of
           Some h \<Rightarrow> Some h
         | None \<Rightarrow> (case email_alt2 cs of Some h \<Rightarrow> Some h | None \<Rightarrow> email_match cs))
      else email_match cs)"

definition emailToDomain :: "extern \<Rightarrow> string \<Rightarrow> string option" where
  "emailToDomain env email =
     (case email_match (toLowerCase email) of
        None \<Rightarrow> None
      | Some host \<Rightarrow> Some (js_or (getDomain env host) host))"

text \<open>The body of the \<open>try\<close> block: the constructor may throw.\<close>

definition hasScheme :: "string \<Rightarrow> bool" where
  "hasScheme raw = (ci_prefix ''https://'' raw \<or> ci_prefix ''http://'' raw)"

definition try_getDomainFromUrl :: "extern \<Rightarrow> string \<Rightarrow> js_error + string" where
  "try_getDomainFromUrl env raw =
     (case new_URL_hostname env (if hasScheme raw then raw else ''http://'' @ raw) of
        Inl e \<Rightarrow> Inl e
      | Inr hostname \<Rightarrow> Inr (js_or (getDomain env hostname) hostname))"

definition safeGetDomainFromUrl :: "extern \<Rightarrow> string \<Rightarrow> string option" where
  "safeGetDomainFromUrl env raw =
     (case try_getDomainFromUrl env raw of
        Inr d \<Rightarrow> Some d
      | Inl e \<Rightarrow>
          (case parseTld_domain env raw of
             None \<Rightarrow> None
           | Some d \<Rightarrow> if d \<noteq> [] then Some d else None))"

definition replace_all :: "char \<Rightarrow> char \<Rightarrow> string \<Rightarrow> string" where
  "replace_all a b s = map (\<lambda>c. if c = a then b else c) s"

definition deobfuscateHomoglyphs :: "string \<Rightarrow> string" where
  "deobfuscateHomoglyphs s =
     replace_all (CHR ''@'') (CHR ''a'')
       (replace_all (CHR ''7'') (CHR ''t'')
         (replace_all (CHR ''5'') (CHR ''s'')
           (replace_all (CHR ''3'') (CHR ''e'')
             (replace_all (CHR ''1'') (CHR ''l'')
               (replace_all (CHR ''0'') (CHR ''o'') s)))))"

definition looksLikeBrand :: "string \<Rightarrow> string \<Rightarrow> bool" where
  "looksLikeBrand domain brandDomain =
     (let d = deobfuscateHomoglyphs (toLowerCase domain);
          b = toLowerCase brandDomain
      in if d = b then False
         else if str_includes d b \<and> \<not> endsWith d b then True
         else filter is_lower_letter d = filter is_lower_letter b)"

subsection \<open>The regular expressions of the extraction\<close>

text \<open>
  \<open>https?:\/\/[^\s)]+\<close> with the flag \<open>i\<close>, anchored: the length of the match. The run
  is greedy; where the expression goes on (with \<open>)\<close> in the Markdown expression), a shorter
  run is followed by a character of the run, so no backtracking succeeds.
\<close>

definition url_run :: "string \<Rightarrow> string" where
  "url_run s = takeWhile (\<lambda>c. \<not> is_space c \<and> c \<noteq> CHR '')'') s"

definition http_url_len :: "string \<Rightarrow> nat option" where
  "http_url_len s =
     (if ci_prefix ''https://'' s \<and> url_run (drop 8 s) \<noteq> []
        then Some (8 + length (url_run (drop 8 s)))
      else if ci_prefix ''http://'' s \<and> url_run (drop 7 s) \<noteq> []
        then Some (7 + length (url_run (drop 7 s)))
      else None)"

definition plain_at :: "string \<Rightarrow> (string \<times> nat) option" where
  "plain_at s = (case http_url_len s of None \<Rightarrow> None | Some n \<Rightarrow> Some (take n s, n))"

text \<open>
  \<open>\[([^\]]+)\]\((https?:\/\/[^\s)]+)\)\<close>, anchored: the pair of the display text and
  the target, and the length of the match.
\<close>

definition md_at :: "string \<Rightarrow> ((string \<times> string) \<times> nat) option" where
  "md_at s =
     (case s of
        [] \<Rightarrow> None
      | c # r \<Rightarrow>
          if c \<noteq> CHR ''['' then None
          else
            let disp = takeWhile (\<lambda>c. c \<noteq> CHR '']'') r;
                r1 = drop (length disp) r
            in if disp = [] \<or> \<not> startsWith r1 '']('' then None
               else
                 let r2 = drop 2 r1
                 in (case http_url_len r2 of
                       None \<Rightarrow> None
                     | Some n \<Rightarrow>
                         if startsWith (drop n r2) '')''
                         then Some ((disp, take n r2), length disp + n + 4)
                         else None))"

text \<open>
  \<open>href=\"([^\"]+)\"[^>]*>\<close>, anchored, followed by the continuation \<open>k\<close> (nothing in
  \<open>extractAllUrls\<close>, the display text and \<open></a>\<close> in \<open>extractLinkTextPairs\<close>): the value
  of the attribute, what \<open>k\<close> captured and the length of the match.
\<close>

definition href_at ::
  "(string \<Rightarrow> ('a \<times> nat) option) \<Rightarrow> string \<Rightarrow> ((string \<times> 'a) \<times> nat) option" where
  \<open>href_at k s =
     (if \<not> ci_prefix ''href="'' s then None
      else
        let r = drop 6 s;
            v = takeWhile (\<lambda>c. c \<noteq> CHR 0x22) r;
            r1 = drop (length v) r
        in if v = [] \<or> \<not> startsWith r1 ''"'' then None
           else
             let r2 = drop 1 r1;
                 g = takeWhile (\<lambda>c. c \<noteq> CHR ''>'') r2;
                 r3 = drop (length g) r2
             in if \<not> startsWith r3 ''>'' then None
                else (case k (drop 1 r3) of
                        None \<Rightarrow> None
                      | Some (x, n) \<Rightarrow> Some ((v, x), length v + length g + n + 8)))\<close>

text \<open>
  \<open><a [^>]*\<close> in front of it: the greedy \<open>[^>]*\<close> first takes all characters up to the
  next \<open>>\<close> and gives them back one by one until the rest matches.
\<close>

definition anchor_at ::
  "(string \<Rightarrow> ('a \<times> nat) option) \<Rightarrow> string \<Rightarrow> ((string \<times> 'a) \<times> nat) option" where
  "anchor_at k s =
     (if \<not> ci_prefix ''<a '' s then None
      else
        let r = drop 3 s;
            m = length (takeWhile (\<lambda>c. c \<noteq> CHR ''>'') r)
        in (case try_down (\<lambda>j. href_at k (drop j r)) m of
              None \<Rightarrow> None
            | Some (j, (x, n)) \<Rightarrow> Some (x, j + n + 3)))"

text \<open>The end of the expression in \<open>extractAllUrls\<close>.\<close>

definition no_more :: "string \<Rightarrow> (unit \<times> nat) option" where
  "no_more s = Some ((), 0)"

text \<open>
  \<open>(.*?)<\/a>\<close>, anchored: the lazy dot takes the fewest characters, none of them a line
  terminator, that bring it in front of \<open></a>\<close>.
\<close>

fun lazy_close :: "string \<Rightarrow> (string \<times> nat) option" where
  "lazy_close [] = None"
| "lazy_close (c # cs) =
     (if ci_prefix ''</a>'' (c # cs) then Some ([], 4)
      else if is_line_terminator c then None
      else (case lazy_close cs of None \<Rightarrow> None | Some (d, n) \<Rightarrow> Some (c # d, Suc n)))"

definition html_href_at :: "string \<Rightarrow> (string \<times> nat) option" where
  "html_href_at s =
     (case anchor_at no_more s of None \<Rightarrow> None | Some ((v, u), n) \<Rightarrow> Some (v, n))"

definition html_pair_at :: "string \<Rightarrow> ((string \<times> string) \<times> nat) option" where
  "html_pair_at s =
     (case anchor_at lazy_close s of None \<Rightarrow> None | Some ((v, d), n) \<Rightarrow> Some ((d, v), n))"

definition md_href_at :: "string \<Rightarrow> (string \<times> nat) option" where
  "md_href_at s = (case md_at s of None \<Rightarrow> None | Some ((d, u), n) \<Rightarrow> Some (u, n))"

subsection \<open>Extraction\<close>

text \<open>\<open>Set.add\<close>: a set of JavaScript keeps the order of first insertion.\<close>

definition set_add :: "'a list \<Rightarrow> 'a \<Rightarrow> 'a list" where
  "set_add urls u = (if u \<in> set urls then urls else urls @ [u])"

definition extractAllUrls :: "string \<Rightarrow> string list" where
  "extractAllUrls text =
     (let urls0 = foldl set_add [] (scan_all plain_at text);
          urls1 = foldl set_add urls0 (scan_all md_href_at text);
          urls2 = foldl set_add urls1 (scan_all html_href_at text)
      in urls2)"

definition extractLinkTextPairs :: "string \<Rightarrow> (string \<times> string) list" where
  "extractLinkTextPairs text = scan_all md_at text @ scan_all html_pair_at text"

subsection \<open>Core detection\<close>

text \<open>
  The two accumulators of \<open>detect\<close>, \<open>reasons\<close> and \<open>score\<close>, are threaded through the
  rules as a pair; \<open>fire\<close> is the pair of statements \<open>reasons.push(label); score += w\<close>.
\<close>

type_synonym acc = "string list \<times> int"

definition fire :: "string \<Rightarrow> int \<Rightarrow> acc \<Rightarrow> acc" where
  "fire label w st = (fst st @ [label], snd st + w)"

text \<open>1) Keywords.\<close>

definition keyword_step :: "string \<Rightarrow> string \<Rightarrow> acc \<Rightarrow> acc" where
  \<open>keyword_step text kw st =
     (if str_includes text kw
      then fire (''Contains suspicious phrase: "'' @ kw @ ''"'') (keyword WEIGHTS) st
      else st)\<close>

text \<open>2) URLs and domains. The loop over the brands stops at the first lookalike.\<close>

fun brand_loop :: "string \<Rightarrow> string list \<Rightarrow> acc \<Rightarrow> acc" where
  "brand_loop domain [] st = st"
| "brand_loop domain (brand # brands) st =
     (if looksLikeBrand domain brand
      then fire (''Brand lookalike detected: '' @ domain @ '' ~ '' @ brand)
             (brandLookalike WEIGHTS) st
      else brand_loop domain brands st)"

text \<open>\<open>/(secure|login|update|verify)/i.test(domain)\<close>\<close>

definition suspicious_cue :: "string \<Rightarrow> bool" where
  "suspicious_cue domain =
     (let l = toLowerCase domain
      in str_includes l ''secure'' \<or> str_includes l ''login'' \<or> str_includes l ''update''
         \<or> str_includes l ''verify'')"

text \<open>The four \<open>if\<close> statements of the loop body, for the domain of one URL.\<close>

definition longDomain_rule :: "string \<Rightarrow> acc \<Rightarrow> acc" where
  "longDomain_rule domain st =
     (if length domain > 40
      then fire (''Very long domain: '' @ domain) (longDomain WEIGHTS) st
      else st)"

definition punycode_rule :: "string \<Rightarrow> acc \<Rightarrow> acc" where
  "punycode_rule domain st =
     (if startsWith domain ''xn--''
      then fire (''Punycode domain detected: '' @ domain) (punycode WEIGHTS) st
      else st)"

definition suspiciousUrl_rule :: "string \<Rightarrow> acc \<Rightarrow> acc" where
  "suspiciousUrl_rule domain st =
     (if suspicious_cue domain
      then fire (''Suspicious keyword in domain: '' @ domain) (suspiciousUrl WEIGHTS) st
      else st)"

definition brandLookalike_rule :: "options \<Rightarrow> string \<Rightarrow> acc \<Rightarrow> acc" where
  "brandLookalike_rule opts domain st =
     (if strictBrandLookalikes opts then brand_loop domain HIGH_VALUE_BRANDS st else st)"

text \<open>The loop body: a URL without a domain is skipped (\<open>if (!domain) continue\<close>).\<close>

definition url_step :: "options \<Rightarrow> extern \<Rightarrow> string \<Rightarrow> acc \<Rightarrow> acc" where
  "url_step opts env url st =
     (case safeGetDomainFromUrl env url of
        None \<Rightarrow> st
      | Some domain \<Rightarrow>
          if domain = [] then st
          else
            let st1 = longDomain_rule domain st;
                st2 = punycode_rule domain st1;
                st3 = suspiciousUrl_rule domain st2
            in brandLookalike_rule opts domain st3)"

text \<open>3) Link text against destination.\<close>

definition link_step :: "extern \<Rightarrow> string \<times> string \<Rightarrow> acc \<Rightarrow> acc" where
  \<open>link_step env pair st =
     (let display = fst pair;
          href = snd pair;
          d = js_or (safeGetDomainFromUrl env href) [];
          disp = normalizeStr display
      in if d \<noteq> [] \<and> disp \<noteq> [] \<and> \<not> str_includes disp d
         then fire (''Link text ("'' @ display @ ''") does not match destination ('' @ href @ '')'')
                (linkMismatch WEIGHTS) st
         else st)\<close>

text \<open>
  4) Attachments. \<open>/\.(\w+)\.(exe|bat|scr|cmd|js)$/i\<close>, anchored at a dot: the greedy
  \<open>\w+\<close> stops in front of the second dot, and the rest of the string is one of the
  extensions.
\<close>

definition double_ext_at :: "string \<Rightarrow> bool" where
  "double_ext_at s =
     (case s of
        [] \<Rightarrow> False
      | c # r \<Rightarrow>
          c = CHR ''.'' \<and>
          (let w = takeWhile is_word r;
               r1 = drop (length w) r
           in w \<noteq> [] \<and>
              (case r1 of
                 [] \<Rightarrow> False
               | c1 # r2 \<Rightarrow>
                   c1 = CHR ''.'' \<and>
                   toLowerCase r2 \<in> set [''exe'', ''bat'', ''scr'', ''cmd'', ''js''])))"

text \<open>The three \<open>if\<close> statements of the loop body, for one file name.\<close>

definition dangerous_rule :: "string \<Rightarrow> string \<Rightarrow> acc \<Rightarrow> acc" where
  "dangerous_rule file lower st =
     (if list_ex (\<lambda>ext. endsWith lower ext) DANGEROUS_EXTS
      then fire (''Dangerous attachment: '' @ file) (dangerousAttachment WEIGHTS) st
      else st)"

definition macro_rule :: "string \<Rightarrow> string \<Rightarrow> acc \<Rightarrow> acc" where
  "macro_rule file lower st =
     (if list_ex (\<lambda>ext. endsWith lower ext) RISKY_OFFICE_EXTS
      then fire (''Macro-enabled Office attachment: '' @ file) (macroAttachment WEIGHTS) st
      else st)"

definition doubleExtension_rule :: "string \<Rightarrow> string \<Rightarrow> acc \<Rightarrow> acc" where
  "doubleExtension_rule file lower st =
     (if search double_ext_at lower
      then fire (''Double-extension trick: '' @ file) (doubleExtension WEIGHTS) st
      else st)"

text \<open>The loop body: a blank file name is skipped (\<open>if (!lower) continue\<close>).\<close>

definition attachment_step :: "string \<Rightarrow> acc \<Rightarrow> acc" where
  "attachment_step file st =
     (let lower = trim (toLowerCase file)
      in if lower = [] then st
         else
           let st1 = dangerous_rule file lower st;
               st2 = macro_rule file lower st1;
               st3 = doubleExtension_rule file lower st2
           in st3)"

text \<open>5) Headers. The sign between the two domains is U+2260.\<close>

definition neq_sign :: string where
  "neq_sign = [CHR 0xE2, CHR 0x89, CHR 0xA0]"

definition replyTo_step :: "string \<Rightarrow> string \<Rightarrow> acc \<Rightarrow> acc" where
  "replyTo_step fromDomain replyToDomain st =
     (if fromDomain \<noteq> [] \<and> replyToDomain \<noteq> [] \<and> fromDomain \<noteq> replyToDomain
      then fire (''From ('' @ fromDomain @ '') '' @ neq_sign @ '' Reply-To ('' @ replyToDomain @ '')'')
             (replyToMismatch WEIGHTS) st
      else st)"

definition spf_step :: "string \<Rightarrow> acc \<Rightarrow> acc" where
  "spf_step ar0 st =
     (if ar0 \<noteq> [] then
        (let ar = toLowerCase ar0
         in if \<not> str_includes ar ''spf=pass''
            then fire ''SPF not pass in Authentication-Results'' (spfFailOrMissing WEIGHTS) st
            else st)
      else st)"

text \<open>6) Free providers; \<open>b.split(".")[0]\<close> is the part of \<open>b\<close> in front of its first dot.\<close>

definition first_label :: "string \<Rightarrow> string" where
  "first_label b = takeWhile (\<lambda>c. c \<noteq> CHR ''.'') b"

definition freeProvider_step :: "options \<Rightarrow> string \<Rightarrow> string \<Rightarrow> acc \<Rightarrow> acc" where
  "freeProvider_step opts fromDomain text st =
     (if treatFreeProvidersAsSuspicious opts \<and> fromDomain \<noteq> [] then
        (let isFree = (fromDomain \<in> set FREE_PROVIDERS)
         in if isFree \<and> list_ex (\<lambda>b. str_includes text (first_label b)) HIGH_VALUE_BRANDS
            then fire (''Corporate-sounding email sent from free provider ('' @ fromDomain @ '')'')
                   (freeProviderAsCorp WEIGHTS) st
            else st)
      else st)"

text \<open>The final category.\<close>

definition categorize :: "int \<Rightarrow> int \<Rightarrow> category" where
  "categorize sc th =
     (if sc \<ge> th * 2 then Suspicious else if sc \<ge> th then NeedsReview else LikelySafe)"

text \<open>The numbered sections of \<open>detect\<close>: each loop runs its rule over a list.\<close>

definition keyword_stage :: "string \<Rightarrow> acc \<Rightarrow> acc" where
  "keyword_stage text st = fold (keyword_step text) PHISHING_KEYWORDS st"

definition url_stage :: "options \<Rightarrow> extern \<Rightarrow> string \<Rightarrow> acc \<Rightarrow> acc" where
  "url_stage opts env b st = fold (url_step opts env) (extractAllUrls b) st"

definition link_stage :: "extern \<Rightarrow> string \<Rightarrow> acc \<Rightarrow> acc" where
  "link_stage env b st = fold (link_step env) (extractLinkTextPairs b) st"

definition attachment_stage :: "string list \<Rightarrow> acc \<Rightarrow> acc" where
  "attachment_stage files st = fold attachment_step files st"

text \<open>The state of the accumulators behind the last rule.\<close>

definition run_rules :: "extern \<Rightarrow> DetectionInput \<Rightarrow> acc" where
  "run_rules env input =
     (let text = normalizeStr (subject input @ '' '' @ body input);
          fromDomain = js_or (emailToDomain env (fromEmail input)) [];
          replyToDomain = js_or (emailToDomain env (replyToEmail input)) [];
          st0 = ([], 0);
          st1 = keyword_stage text st0;
          st2 = url_stage (options input) env (body input) st1;
          st3 = link_stage env (body input) st2;
          st4 = attachment_stage (attachments input) st3;
          st5 = replyTo_step fromDomain replyToDomain st4;
          st6 = spf_step (authResults input) st5;
          st7 = freeProvider_step (options input) fromDomain text st6
      in st7)"

definition detect :: "extern \<Rightarrow> DetectionInput \<Rightarrow> DetectionResult" where
  "detect env input =
     (let st = run_rules env input
      in \<lparr> score = snd st, reasons = fst st,
           category = categorize (snd st) (threshold (options input)) \<rparr>)"

subsection \<open>The component around it\<close>

text \<open>
  The state of \<open>AdvancedEmailDetector\<close> (its \<open>useState\<close> cells but the result), the memoised
  attachment list, \<open>analyze\<close> and the two example loaders.
\<close>

record ui_state =
  ui_subject :: string
  ui_fromEmail :: string
  ui_replyTo :: string
  ui_authResults :: string
  ui_attachmentsRaw :: string
  ui_body :: string
  ui_treatFree :: bool
  ui_strictBrands :: bool
  ui_threshold :: int

definition initial_state :: ui_state where
  "initial_state = \<lparr> ui_subject = [], ui_fromEmail = [], ui_replyTo = [], ui_authResults = [],
     ui_attachmentsRaw = [], ui_body = [], ui_treatFree = True, ui_strictBrands = True,
     ui_threshold = 7 \<rparr>"

text \<open>\<open>s.split(",")\<close>: always at least one piece.\<close>

fun split_comma :: "string \<Rightarrow> string list" where
  "split_comma [] = [[]]"
| "split_comma (c # cs) =
     (if c = CHR '','' then [] # split_comma cs
      else (case split_comma cs of [] \<Rightarrow> [[c]] | p # ps \<Rightarrow> (c # p) # ps))"

definition attachments_of :: "string \<Rightarrow> string list" where
  "attachments_of raw = filter (\<lambda>s. s \<noteq> []) (map trim (split_comma raw))"

definition analyze_input :: "ui_state \<Rightarrow> DetectionInput" where
  "analyze_input u =
     \<lparr> subject = ui_subject u, body = ui_body u, fromEmail = ui_fromEmail u,
       replyToEmail = ui_replyTo u, authResults = ui_authResults u,
       attachments = attachments_of (ui_attachmentsRaw u),
       options = \<lparr> treatFreeProvidersAsSuspicious = ui_treatFree u,
                   strictBrandLookalikes = ui_strictBrands u,
                   threshold = ui_threshold u \<rparr> \<rparr>"

definition analyze :: "extern \<Rightarrow> ui_state \<Rightarrow> DetectionResult" where
  "analyze env u = detect env (analyze_input u)"

definition fillSafeExample :: "ui_state \<Rightarrow> ui_state" where
  "fillSafeExample u =
     u \<lparr> ui_subject := ''Your July invoice is ready'',
         ui_fromEmail := ''billing@legitvendor.com'',
         ui_replyTo := ''billing@legitvendor.com'',
         ui_authResults := ''spf=pass dkim=pass dmarc=pass'',
         ui_attachmentsRaw := ''invoice.pdf'',
         ui_body := ''Hi team, your July invoice is attached as a PDF. You can also view it in your account portal at https://portal.legitvendor.com.''
            @ [CHR 0x0A, CHR 0x0A] @ ''If you have questions, reply to this email.'' \<rparr>"

definition fillSuspiciousExample :: "ui_state \<Rightarrow> ui_state" where
  "fillSuspiciousExample u =
     u \<lparr> ui_subject := ''URGENT: Verify your PayPal account now'',
         ui_fromEmail := ''support@paypa1.com'',
         ui_replyTo := ''helpcenter@gmail.com'',
         ui_authResults := ''spf=fail dkim=none'',
         ui_attachmentsRaw := ''invoice.docm, setup.exe'',
         ui_body := ''Dear user, your account is locked. Click here immediately to verify: [PayPal Secure](http://secure-paypal.com-login.cn).'' \<rparr>"

text \<open>
  What the URL constructor and \<open>tldts\<close> answer on the URLs and host names used in this
  theory, those of the two examples first: the public suffix of each is a single label
  (\<open>com\<close>, \<open>cn\<close>), so the registered domain is the last two labels, and \<open>tldts\<close> drops
  a final dot. On every other string the table is silent: the constructor of
  \<open>example_env\<close> throws and its \<open>tldts\<close> finds no domain.
\<close>

definition example_hostnames :: "(string \<times> string) list" where
  "example_hostnames =
     [(''https://portal.legitvendor.com.'', ''portal.legitvendor.com.''),
      (''http://secure-paypal.com-login.cn'', ''secure-paypal.com-login.cn''),
      (''https://www.paypal.com/signin'', ''www.paypal.com'')]"

definition example_domains :: "(string \<times> string) list" where
  "example_domains =
     [(''legitvendor.com'', ''legitvendor.com''),
      (''portal.legitvendor.com.'', ''legitvendor.com''),
      (''paypa1.com'', ''paypa1.com''),
      (''gmail.com'', ''gmail.com''),
      (''secure-paypal.com-login.cn'', ''com-login.cn''),
      (''www.paypal.com'', ''paypal.com'')]"

definition example_env :: extern where
  "example_env =
     \<lparr> new_URL_hostname =
         (\<lambda>s. case map_of example_hostnames s of None \<Rightarrow> Inl TypeError | Some h \<Rightarrow> Inr h),
       getDomain = map_of example_domains,
       parseTld_domain = (\<lambda>s. None) \<rparr>"






subsection \<open>Reading a reason back\<close>

text \<open>
  Every rule writes a reason with a fixed beginning of its own, so a reason tells which
  rule fired. \<open>reason_weight\<close> is the entry of \<open>WEIGHTS\<close> for that rule, and
  \<open>reason_stage\<close> the number of the section of \<open>detect\<close> the rule stands in (the
  From/Reply-To rule, the SPF rule and the free-provider rule counted as sections 5, 6
  and 7).
\<close>

datatype rule =
  Keyword | LongDomain | Punycode | SuspiciousUrl | BrandLookalike | LinkMismatch
  | DangerousAttachment | MacroAttachment | DoubleExtension | ReplyToMismatch
  | SpfFailOrMissing | FreeProviderAsCorp

definition rule_of_reason :: "string \<Rightarrow> rule option" where
  \<open>rule_of_reason r =
     (if startsWith r ''Contains suspicious phrase: "'' then Some Keyword
      else if startsWith r ''Very long domain: '' then Some LongDomain
      else if startsWith r ''Punycode domain detected: '' then Some Punycode
      else if startsWith r ''Suspicious keyword in domain: '' then Some SuspiciousUrl
      else if startsWith r ''Brand lookalike detected: '' then Some BrandLookalike
      else if startsWith r ''Link text ("'' then Some LinkMismatch
      else if startsWith r ''Dangerous attachment: '' then Some DangerousAttachment
      else if startsWith r ''Macro-enabled Office attachment: '' then Some MacroAttachment
      else if startsWith r ''Double-extension trick: '' then Some DoubleExtension
      else if startsWith r ''From ('' then Some ReplyToMismatch
      else if r = ''SPF not pass in Authentication-Results'' then Some SpfFailOrMissing
      else if startsWith r ''Corporate-sounding email sent from free provider (''
        then Some FreeProviderAsCorp
      else None)\<close>

fun weight_of :: "rule \<Rightarrow> int" where
  "weight_of Keyword = keyword WEIGHTS"
| "weight_of LongDomain = longDomain WEIGHTS"
| "weight_of Punycode = punycode WEIGHTS"
| "weight_of SuspiciousUrl = suspiciousUrl WEIGHTS"
| "weight_of BrandLookalike = brandLookalike WEIGHTS"
| "weight_of LinkMismatch = linkMismatch WEIGHTS"
| "weight_of DangerousAttachment = dangerousAttachment WEIGHTS"
| "weight_of MacroAttachment = macroAttachment WEIGHTS"
| "weight_of DoubleExtension = doubleExtension WEIGHTS"
| "weight_of ReplyToMismatch = replyToMismatch WEIGHTS"
| "weight_of SpfFailOrMissing = spfFailOrMissing WEIGHTS"
| "weight_of FreeProviderAsCorp = freeProviderAsCorp WEIGHTS"

fun stage_of :: "rule \<Rightarrow> nat" where
  "stage_of Keyword = 1"
| "stage_of LongDomain = 2"
| "stage_of Punycode = 2"
| "stage_of SuspiciousUrl = 2"
| "stage_of BrandLookalike = 2"
| "stage_of LinkMismatch = 3"
| "stage_of DangerousAttachment = 4"
| "stage_of MacroAttachment = 4"
| "stage_of DoubleExtension = 4"
| "stage_of ReplyToMismatch = 5"
| "stage_of SpfFailOrMissing = 6"
| "stage_of FreeProviderAsCorp = 7"

definition reason_weight :: "string \<Rightarrow> int" where
  "reason_weight r = (case rule_of_reason r of None \<Rightarrow> 0 | Some ru \<Rightarrow> weight_of ru)"

definition reason_stage :: "string \<Rightarrow> nat" where
  "reason_stage r = (case rule_of_reason r of None \<Rightarrow> 0 | Some ru \<Rightarrow> stage_of ru)"

subsection \<open>What a statement sequence adds to the accumulators\<close>

text \<open>
  \<open>contrib f\<close> is what \<open>f\<close> writes when started on empty accumulators. \<open>f\<close> is additive
  when on any accumulators it appends that list and adds that number; \<open>emits S f\<close> says
  moreover that the reasons are those of rules in \<open>S\<close> and the number is the sum of their
  weights.
\<close>

definition contrib :: "(acc \<Rightarrow> acc) \<Rightarrow> acc" where
  "contrib f = f ([], 0)"

definition additive :: "(acc \<Rightarrow> acc) \<Rightarrow> bool" where
  "additive f \<longleftrightarrow> (\<forall>st. f st = (fst st @ fst (contrib f), snd st + snd (contrib f)))"

definition emits :: "rule set \<Rightarrow> (acc \<Rightarrow> acc) \<Rightarrow> bool" where
  "emits S f \<longleftrightarrow>
     additive f \<and>
     snd (contrib f) = sum_list (map reason_weight (fst (contrib f))) \<and>
     (\<forall>r \<in> set (fst (contrib f)). \<exists>ru \<in> S. rule_of_reason r = Some ru)"

text \<open>
  The local constants of \<open>detect\<close> and its seven sections, in the order in which
  \<open>detect\<close> runs them.
\<close>

definition text_of :: "DetectionInput \<Rightarrow> string" where
  "text_of input = normalizeStr (subject input @ '' '' @ body input)"

definition fromDomain_of :: "extern \<Rightarrow> DetectionInput \<Rightarrow> string" where
  "fromDomain_of env input = js_or (emailToDomain env (fromEmail input)) []"

definition replyToDomain_of :: "extern \<Rightarrow> DetectionInput \<Rightarrow> string" where
  "replyToDomain_of env input = js_or (emailToDomain env (replyToEmail input)) []"

definition stage_list :: "extern \<Rightarrow> DetectionInput \<Rightarrow> (acc \<Rightarrow> acc) list" where
  "stage_list env input =
     [keyword_stage (text_of input),
      url_stage (options input) env (body input),
      link_stage env (body input),
      attachment_stage (attachments input),
      replyTo_step (fromDomain_of env input) (replyToDomain_of env input),
      spf_step (authResults input),
      freeProvider_step (options input) (fromDomain_of env input) (text_of input)]"

section \<open>Proofs\<close>

subsection \<open>Additive statement sequences\<close>

lemma additive_apply: "additive f \<Longrightarrow> f st = (fst st @ fst (contrib f), snd st + snd (contrib f))"
  unfolding additive_def by blast

lemma additive_id: "additive (\<lambda>st. st)"
  by (simp add: additive_def contrib_def)

lemma additive_fire: "additive (fire l w)"
  by (simp add: additive_def contrib_def fire_def)

lemma contrib_comp:
  assumes "additive f" and "additive g"
  shows "contrib (\<lambda>st. g (f st)) = (fst (contrib f) @ fst (contrib g), snd (contrib f) + snd (contrib g))"
proof -
  have "g (f ([], 0)) = (fst (f ([], 0)) @ fst (contrib g), snd (f ([], 0)) + snd (contrib g))"
    by (rule additive_apply [OF assms(2)])
  then show ?thesis by (simp add: contrib_def)
qed

lemma additive_comp:
  assumes "additive f" and "additive g"
  shows "additive (\<lambda>st. g (f st))"
proof -
  have "g (f st) = (fst st @ fst (contrib (\<lambda>st. g (f st))), snd st + snd (contrib (\<lambda>st. g (f st))))" for st
  proof -
    have 1: "fst (f st) = fst st @ fst (contrib f)" "snd (f st) = snd st + snd (contrib f)"
      by (subst additive_apply [OF assms(1)], simp)+
    have 2: "g (f st) = (fst (f st) @ fst (contrib g), snd (f st) + snd (contrib g))"
      by (rule additive_apply [OF assms(2)])
    show ?thesis
      unfolding 2 1 contrib_comp [OF assms] by simp
  qed
  then show ?thesis unfolding additive_def by blast
qed

lemma additive_fold:
  assumes "\<And>x. x \<in> set xs \<Longrightarrow> additive (step x)"
  shows "additive (fold step xs)"
  using assms
proof (induction xs)
  case Nil
  show ?case by (simp add: additive_def contrib_def)
next
  case (Cons x xs)
  have "additive (\<lambda>st. fold step xs (step x st))"
    by (rule additive_comp) (simp_all add: Cons)
  then show ?case by (simp add: comp_def)
qed

lemma contrib_fold:
  assumes "\<And>x. x \<in> set xs \<Longrightarrow> additive (step x)"
  shows "contrib (fold step xs) =
    (concat (map (\<lambda>x. fst (contrib (step x))) xs), sum_list (map (\<lambda>x. snd (contrib (step x))) xs))"
  using assms
proof (induction xs)
  case Nil
  show ?case by (simp add: contrib_def)
next
  case (Cons x xs)
  have a: "additive (step x)" and b: "additive (fold step xs)"
    using Cons.prems by (simp_all add: additive_fold)
  have "contrib (fold step (x # xs)) = contrib (\<lambda>st. fold step xs (step x st))"
    by (simp add: contrib_def)
  also have "\<dots> = (fst (contrib (step x)) @ fst (contrib (fold step xs)),
      snd (contrib (step x)) + snd (contrib (fold step xs)))"
    by (rule contrib_comp [OF a b])
  finally have eq: "contrib (fold step (x # xs)) = (fst (contrib (step x)) @ fst (contrib (fold step xs)),
      snd (contrib (step x)) + snd (contrib (fold step xs)))" .
  have ih: "contrib (fold step xs) =
    (concat (map (\<lambda>x. fst (contrib (step x))) xs), sum_list (map (\<lambda>x. snd (contrib (step x))) xs))"
    using Cons by simp
  show ?case unfolding eq ih by simp
qed

lemma emits_id: "emits S (\<lambda>st. st)"
  by (simp add: emits_def additive_id) (simp add: contrib_def)

lemma emits_fire:
  assumes "rule_of_reason l = Some ru" and "ru \<in> S" and "weight_of ru = w"
  shows "emits S (fire l w)"
  using assms by (simp add: emits_def additive_fire) (simp add: contrib_def fire_def reason_weight_def)

lemma emits_comp:
  assumes "emits S f" and "emits S g"
  shows "emits S (\<lambda>st. g (f st))"
proof -
  have af: "additive f" and ag: "additive g" using assms by (simp_all add: emits_def)
  have c: "contrib (\<lambda>st. g (f st)) = (fst (contrib f) @ fst (contrib g), snd (contrib f) + snd (contrib g))"
    by (rule contrib_comp [OF af ag])
  have "additive (\<lambda>st. g (f st))" by (rule additive_comp [OF af ag])
  moreover have "snd (contrib (\<lambda>st. g (f st))) = sum_list (map reason_weight (fst (contrib (\<lambda>st. g (f st)))))"
    unfolding c using assms by (simp add: emits_def)
  moreover have "\<forall>r \<in> set (fst (contrib (\<lambda>st. g (f st)))). \<exists>ru \<in> S. rule_of_reason r = Some ru"
    unfolding c using assms unfolding emits_def by auto
  ultimately show ?thesis by (simp add: emits_def)
qed

lemma emits_if:
  assumes "c \<Longrightarrow> emits S f" and "\<not> c \<Longrightarrow> emits S g"
  shows "emits S (\<lambda>st. if c then f st else g st)"
  using assms by (cases c) simp_all

lemma emits_fold:
  assumes "\<And>x. x \<in> set xs \<Longrightarrow> emits S (step x)"
  shows "emits S (fold step xs)"
  using assms
proof (induction xs)
  case Nil
  show ?case using emits_id [of S] by (simp add: id_def)
next
  case (Cons x xs)
  have "emits S (\<lambda>st. fold step xs (step x st))"
    by (rule emits_comp) (simp_all add: Cons)
  then show ?case by (simp add: comp_def)
qed

lemma emits_rule:
  assumes "emits S f" and "r \<in> set (fst (contrib f))"
  shows "\<exists>ru \<in> S. rule_of_reason r = Some ru"
  using assms by (simp add: emits_def)

lemma emits_weight:
  assumes "emits S f"
  shows "snd (contrib f) = sum_list (map reason_weight (fst (contrib f)))"
  using assms by (simp add: emits_def)

lemma emitsI:
  assumes "additive f"
    and "snd (contrib f) = sum_list (map reason_weight (fst (contrib f)))"
    and "\<And>r. r \<in> set (fst (contrib f)) \<Longrightarrow> \<exists>ru \<in> S. rule_of_reason r = Some ru"
  shows "emits S f"
  using assms by (simp add: emits_def)

lemma emits_mono:
  assumes "emits S f" and "S \<subseteq> T"
  shows "emits T f"
proof (rule emitsI)
  show "additive f" using assms(1) by (simp add: emits_def)
  show "snd (contrib f) = sum_list (map reason_weight (fst (contrib f)))"
    by (rule emits_weight [OF assms(1)])
  fix r assume "r \<in> set (fst (contrib f))"
  then obtain ru where "ru \<in> S" "rule_of_reason r = Some ru"
    using emits_rule [OF assms(1)] by blast
  then show "\<exists>ru \<in> T. rule_of_reason r = Some ru" using assms(2) by blast
qed

lemma emits_additive: "emits S f \<Longrightarrow> additive f"
  by (simp add: emits_def)

subsection \<open>The reasons of each rule\<close>

lemma rule_keyword: \<open>rule_of_reason (''Contains suspicious phrase: "'' @ x) = Some Keyword\<close>
  by (simp add: rule_of_reason_def)
lemma rule_long: "rule_of_reason (''Very long domain: '' @ x) = Some LongDomain"
  by (simp add: rule_of_reason_def)
lemma rule_puny: "rule_of_reason (''Punycode domain detected: '' @ x) = Some Punycode"
  by (simp add: rule_of_reason_def)
lemma rule_susp: "rule_of_reason (''Suspicious keyword in domain: '' @ x) = Some SuspiciousUrl"
  by (simp add: rule_of_reason_def)
lemma rule_brand: "rule_of_reason (''Brand lookalike detected: '' @ x) = Some BrandLookalike"
  by (simp add: rule_of_reason_def)
lemma rule_link: \<open>rule_of_reason (''Link text ("'' @ x) = Some LinkMismatch\<close>
  by (simp add: rule_of_reason_def)
lemma rule_dang: "rule_of_reason (''Dangerous attachment: '' @ x) = Some DangerousAttachment"
  by (simp add: rule_of_reason_def)
lemma rule_macro: "rule_of_reason (''Macro-enabled Office attachment: '' @ x) = Some MacroAttachment"
  by (simp add: rule_of_reason_def)
lemma rule_double: "rule_of_reason (''Double-extension trick: '' @ x) = Some DoubleExtension"
  by (simp add: rule_of_reason_def)
lemma rule_from: "rule_of_reason (''From ('' @ x) = Some ReplyToMismatch"
  by (simp add: rule_of_reason_def)
lemma rule_spf: "rule_of_reason ''SPF not pass in Authentication-Results'' = Some SpfFailOrMissing"
  by (simp add: rule_of_reason_def)
lemma rule_free: "rule_of_reason (''Corporate-sounding email sent from free provider ('' @ x) = Some FreeProviderAsCorp"
  by (simp add: rule_of_reason_def)


lemma emits_rule_if:
  assumes "rule_of_reason l = Some ru" and "ru \<in> S" and "weight_of ru = w"
  shows "emits S (\<lambda>st. if c then fire l w st else st)"
  by (rule emits_if) (rule emits_fire [OF assms], rule emits_id)

lemma emits_keyword_step: "emits {Keyword} (keyword_step text kw)"
proof -
  have "keyword_step text kw =
      (\<lambda>st. if str_includes text kw
         then fire (''Contains suspicious phrase: '' @ [CHR 0x22] @ kw @ [CHR 0x22]) (keyword WEIGHTS) st else st)"
    by (rule ext) (simp add: keyword_step_def)
  moreover have "emits {Keyword} \<dots>"
    by (rule emits_rule_if [where ru = Keyword]) (simp_all add: rule_of_reason_def)
  ultimately show ?thesis by simp
qed

lemma emits_keyword_stage: "emits {Keyword} (keyword_stage text)"
proof -
  have "keyword_stage text = fold (keyword_step text) PHISHING_KEYWORDS"
    by (rule ext) (simp add: keyword_stage_def)
  then show ?thesis by (simp add: emits_fold emits_keyword_step)
qed

lemma emits_brand_loop: "emits {BrandLookalike} (brand_loop domain brands)"
proof (induction brands)
  case Nil
  have "brand_loop domain [] = (\<lambda>st. st)" by (rule ext) simp
  then show ?case by (simp add: emits_id)
next
  case (Cons b bs)
  have "brand_loop domain (b # bs) =
      (\<lambda>st. if looksLikeBrand domain b
         then fire (''Brand lookalike detected: '' @ domain @ '' ~ '' @ b) (brandLookalike WEIGHTS) st
         else brand_loop domain bs st)"
    by (rule ext) simp
  moreover have "emits {BrandLookalike} \<dots>"
    by (rule emits_if) (rule emits_fire [OF rule_brand], simp_all add: Cons)
  ultimately show ?case by simp
qed

lemma emits_longDomain_rule: "emits {LongDomain} (longDomain_rule d)"
proof -
  have "longDomain_rule d =
      (\<lambda>st. if length d > 40 then fire (''Very long domain: '' @ d) (longDomain WEIGHTS) st else st)"
    by (rule ext) (simp add: longDomain_rule_def)
  moreover have "emits {LongDomain} \<dots>"
    by (rule emits_rule_if [OF rule_long]) simp_all
  ultimately show ?thesis by simp
qed

lemma emits_punycode_rule: "emits {Punycode} (punycode_rule d)"
proof -
  have "punycode_rule d =
      (\<lambda>st. if startsWith d ''xn--''
         then fire (''Punycode domain detected: '' @ d) (punycode WEIGHTS) st else st)"
    by (rule ext) (simp add: punycode_rule_def)
  moreover have "emits {Punycode} \<dots>"
    by (rule emits_rule_if [OF rule_puny]) simp_all
  ultimately show ?thesis by simp
qed

lemma emits_suspiciousUrl_rule: "emits {SuspiciousUrl} (suspiciousUrl_rule d)"
proof -
  have "suspiciousUrl_rule d =
      (\<lambda>st. if suspicious_cue d
         then fire (''Suspicious keyword in domain: '' @ d) (suspiciousUrl WEIGHTS) st else st)"
    by (rule ext) (simp add: suspiciousUrl_rule_def)
  moreover have "emits {SuspiciousUrl} \<dots>"
    by (rule emits_rule_if [OF rule_susp]) simp_all
  ultimately show ?thesis by simp
qed

lemma emits_brandLookalike_rule: "emits {BrandLookalike} (brandLookalike_rule opts d)"
proof -
  have "brandLookalike_rule opts d =
      (\<lambda>st. if strictBrandLookalikes opts then brand_loop d HIGH_VALUE_BRANDS st else st)"
    by (rule ext) (simp add: brandLookalike_rule_def)
  moreover have "emits {BrandLookalike} \<dots>"
    by (rule emits_if) (rule emits_brand_loop, rule emits_id)
  ultimately show ?thesis by simp
qed

lemma url_step_skip:
  assumes "safeGetDomainFromUrl env url = None \<or> safeGetDomainFromUrl env url = Some []"
  shows "url_step opts env url = (\<lambda>st. st)"
  using assms by (intro ext) (auto simp: url_step_def)

lemma url_step_rules:
  assumes "safeGetDomainFromUrl env url = Some d" and "d \<noteq> []"
  shows "url_step opts env url =
     (\<lambda>st. brandLookalike_rule opts d (suspiciousUrl_rule d (punycode_rule d (longDomain_rule d st))))"
  using assms by (intro ext) (simp add: url_step_def Let_def)

lemma emits_url_step:
  "emits {LongDomain, Punycode, SuspiciousUrl, BrandLookalike} (url_step opts env url)"
  (is "emits ?S _")
proof (cases "safeGetDomainFromUrl env url = None \<or> safeGetDomainFromUrl env url = Some []")
  case True
  show ?thesis unfolding url_step_skip [OF True] by (rule emits_id)
next
  case False
  then obtain d where d: "safeGetDomainFromUrl env url = Some d" "d \<noteq> []" by auto
  have 1: "emits ?S (longDomain_rule d)" by (rule emits_mono [OF emits_longDomain_rule]) simp
  have 2: "emits ?S (punycode_rule d)" by (rule emits_mono [OF emits_punycode_rule]) simp
  have 3: "emits ?S (suspiciousUrl_rule d)" by (rule emits_mono [OF emits_suspiciousUrl_rule]) simp
  have 4: "emits ?S (brandLookalike_rule opts d)"
    by (rule emits_mono [OF emits_brandLookalike_rule]) simp
  show ?thesis
    unfolding url_step_rules [OF d]
    by (rule emits_comp [OF emits_comp [OF emits_comp [OF 1 2] 3] 4])
qed

lemma emits_url_stage:
  "emits {LongDomain, Punycode, SuspiciousUrl, BrandLookalike} (url_stage opts env b)"
proof -
  have "url_stage opts env b = fold (url_step opts env) (extractAllUrls b)"
    by (rule ext) (simp add: url_stage_def)
  then show ?thesis by (simp add: emits_fold emits_url_step)
qed

lemma link_step_eq:
  "link_step env pair =
     (\<lambda>st. if js_or (safeGetDomainFromUrl env (snd pair)) [] \<noteq> [] \<and> normalizeStr (fst pair) \<noteq> []
            \<and> \<not> str_includes (normalizeStr (fst pair)) (js_or (safeGetDomainFromUrl env (snd pair)) [])
       then fire (''Link text ('' @ ([CHR 0x22] @ fst pair @ [CHR 0x22] @ '') does not match destination ('' @ snd pair @ '')''))
              (linkMismatch WEIGHTS) st
       else st)"
  by (rule ext) (simp add: link_step_def Let_def)

lemma emits_link_step: "emits {LinkMismatch} (link_step env pair)"
  unfolding link_step_eq
  by (rule emits_rule_if [where ru = LinkMismatch]) (simp_all add: rule_of_reason_def)

lemma emits_link_stage: "emits {LinkMismatch} (link_stage env b)"
proof -
  have "link_stage env b = fold (link_step env) (extractLinkTextPairs b)"
    by (rule ext) (simp add: link_stage_def)
  then show ?thesis by (simp add: emits_fold emits_link_step)
qed

lemma emits_dangerous_rule: "emits {DangerousAttachment} (dangerous_rule file lower)"
proof -
  have "dangerous_rule file lower =
      (\<lambda>st. if list_ex (\<lambda>ext. endsWith lower ext) DANGEROUS_EXTS
         then fire (''Dangerous attachment: '' @ file) (dangerousAttachment WEIGHTS) st else st)"
    by (rule ext) (simp add: dangerous_rule_def)
  moreover have "emits {DangerousAttachment} \<dots>"
    by (rule emits_rule_if [OF rule_dang]) simp_all
  ultimately show ?thesis by simp
qed

lemma emits_macro_rule: "emits {MacroAttachment} (macro_rule file lower)"
proof -
  have "macro_rule file lower =
      (\<lambda>st. if list_ex (\<lambda>ext. endsWith lower ext) RISKY_OFFICE_EXTS
         then fire (''Macro-enabled Office attachment: '' @ file) (macroAttachment WEIGHTS) st else st)"
    by (rule ext) (simp add: macro_rule_def)
  moreover have "emits {MacroAttachment} \<dots>"
    by (rule emits_rule_if [OF rule_macro]) simp_all
  ultimately show ?thesis by simp
qed

lemma emits_doubleExtension_rule: "emits {DoubleExtension} (doubleExtension_rule file lower)"
proof -
  have "doubleExtension_rule file lower =
      (\<lambda>st. if search double_ext_at lower
         then fire (''Double-extension trick: '' @ file) (doubleExtension WEIGHTS) st else st)"
    by (rule ext) (simp add: doubleExtension_rule_def)
  moreover have "emits {DoubleExtension} \<dots>"
    by (rule emits_rule_if [OF rule_double]) simp_all
  ultimately show ?thesis by simp
qed

lemma attachment_step_skip:
  assumes "trim (toLowerCase file) = []"
  shows "attachment_step file = (\<lambda>st. st)"
  using assms by (intro ext) (simp add: attachment_step_def)

lemma attachment_step_rules:
  assumes "trim (toLowerCase file) \<noteq> []"
  shows "attachment_step file =
     (\<lambda>st. doubleExtension_rule file (trim (toLowerCase file))
        (macro_rule file (trim (toLowerCase file))
          (dangerous_rule file (trim (toLowerCase file)) st)))"
  using assms by (intro ext) (simp add: attachment_step_def Let_def)

lemma emits_attachment_step:
  "emits {DangerousAttachment, MacroAttachment, DoubleExtension} (attachment_step file)"
  (is "emits ?S _")
proof (cases "trim (toLowerCase file) = []")
  case True
  show ?thesis unfolding attachment_step_skip [OF True] by (rule emits_id)
next
  case False
  have 1: "emits ?S (dangerous_rule file (trim (toLowerCase file)))"
    by (rule emits_mono [OF emits_dangerous_rule]) simp
  have 2: "emits ?S (macro_rule file (trim (toLowerCase file)))"
    by (rule emits_mono [OF emits_macro_rule]) simp
  have 3: "emits ?S (doubleExtension_rule file (trim (toLowerCase file)))"
    by (rule emits_mono [OF emits_doubleExtension_rule]) simp
  show ?thesis
    unfolding attachment_step_rules [OF False]
    by (rule emits_comp [OF emits_comp [OF 1 2] 3])
qed

lemma emits_attachment_stage:
  "emits {DangerousAttachment, MacroAttachment, DoubleExtension} (attachment_stage files)"
proof -
  have "attachment_stage files = fold attachment_step files"
    by (rule ext) (simp add: attachment_stage_def)
  then show ?thesis by (simp add: emits_fold emits_attachment_step)
qed

lemma replyTo_step_eq:
  "replyTo_step f r =
     (\<lambda>st. if f \<noteq> [] \<and> r \<noteq> [] \<and> f \<noteq> r
       then fire (''From ('' @ (f @ '') '' @ neq_sign @ '' Reply-To ('' @ r @ '')'')) (replyToMismatch WEIGHTS) st
       else st)"
  by (rule ext) (simp add: replyTo_step_def)

lemma emits_replyTo_step: "emits {ReplyToMismatch} (replyTo_step f r)"
  unfolding replyTo_step_eq
  by (rule emits_rule_if [OF rule_from]) simp_all

lemma spf_step_eq:
  "spf_step ar = (\<lambda>st. if ar \<noteq> [] \<and> \<not> str_includes (toLowerCase ar) ''spf=pass''
      then fire ''SPF not pass in Authentication-Results'' (spfFailOrMissing WEIGHTS) st else st)"
  by (rule ext) (simp add: spf_step_def Let_def)

lemma emits_spf_step: "emits {SpfFailOrMissing} (spf_step ar)"
  unfolding spf_step_eq
  by (rule emits_rule_if [OF rule_spf]) simp_all

lemma freeProvider_step_eq:
  "freeProvider_step opts f text =
     (\<lambda>st. if treatFreeProvidersAsSuspicious opts \<and> f \<noteq> [] \<and> f \<in> set FREE_PROVIDERS
            \<and> list_ex (\<lambda>b. str_includes text (first_label b)) HIGH_VALUE_BRANDS
       then fire (''Corporate-sounding email sent from free provider ('' @ (f @ '')''))
              (freeProviderAsCorp WEIGHTS) st
       else st)"
  by (rule ext) (simp add: freeProvider_step_def Let_def)

lemma emits_freeProvider_step: "emits {FreeProviderAsCorp} (freeProvider_step opts f text)"
  unfolding freeProvider_step_eq
  by (rule emits_rule_if [OF rule_free]) simp_all

subsection \<open>The accumulators behind the last rule\<close>

lemma run_rules_fold: "run_rules env inp = fold (\<lambda>f st. f st) (stage_list env inp) ([], 0)"
  by (simp add: run_rules_def stage_list_def Let_def text_of_def fromDomain_of_def replyToDomain_of_def)

lemma emits_stage_list:
  assumes "f \<in> set (stage_list env inp)"
  shows "emits UNIV f"
proof -
  from assms consider
      "f = keyword_stage (text_of inp)"
    | "f = url_stage (options inp) env (body inp)"
    | "f = link_stage env (body inp)"
    | "f = attachment_stage (attachments inp)"
    | "f = replyTo_step (fromDomain_of env inp) (replyToDomain_of env inp)"
    | "f = spf_step (authResults inp)"
    | "f = freeProvider_step (options inp) (fromDomain_of env inp) (text_of inp)"
    unfolding stage_list_def by auto
  then show ?thesis
  proof cases
    case 1 then show ?thesis using emits_mono [OF emits_keyword_stage subset_UNIV] by simp
  next
    case 2 then show ?thesis using emits_mono [OF emits_url_stage subset_UNIV] by simp
  next
    case 3 then show ?thesis using emits_mono [OF emits_link_stage subset_UNIV] by simp
  next
    case 4 then show ?thesis using emits_mono [OF emits_attachment_stage subset_UNIV] by simp
  next
    case 5 then show ?thesis using emits_mono [OF emits_replyTo_step subset_UNIV] by simp
  next
    case 6 then show ?thesis using emits_mono [OF emits_spf_step subset_UNIV] by simp
  next
    case 7 then show ?thesis using emits_mono [OF emits_freeProvider_step subset_UNIV] by simp
  qed
qed

lemma run_rules_contrib:
  "run_rules env inp =
     (concat (map (\<lambda>f. fst (contrib f)) (stage_list env inp)),
      sum_list (map (\<lambda>f. snd (contrib f)) (stage_list env inp)))"
proof -
  have "contrib (fold (\<lambda>f st. f st) (stage_list env inp)) =
     (concat (map (\<lambda>f. fst (contrib f)) (stage_list env inp)),
      sum_list (map (\<lambda>f. snd (contrib f)) (stage_list env inp)))"
    by (rule contrib_fold) (rule emits_additive, rule emits_stage_list)
  then show ?thesis by (simp add: run_rules_fold contrib_def)
qed

lemma emits_run_rules: "emits UNIV (fold (\<lambda>f st. f st) (stage_list env inp))"
  by (rule emits_fold) (rule emits_stage_list)

lemma score_eq_weights:
  "snd (run_rules env inp) = sum_list (map reason_weight (fst (run_rules env inp)))"
  using emits_weight [OF emits_run_rules [of env inp]] by (simp add: run_rules_fold contrib_def)

lemma reasons_have_rules:
  assumes "r \<in> set (fst (run_rules env inp))"
  shows "\<exists>ru. rule_of_reason r = Some ru"
  using emits_rule [OF emits_run_rules [of env inp], of r] assms
  by (simp add: run_rules_fold contrib_def)

lemma weight_of_pos: "2 \<le> weight_of ru"
  by (cases ru) (simp_all add: WEIGHTS_def)


lemma reasons_split:
  "fst (run_rules env inp) =
     fst (contrib (keyword_stage (text_of inp))) @
     fst (contrib (url_stage (options inp) env (body inp))) @
     fst (contrib (link_stage env (body inp))) @
     fst (contrib (attachment_stage (attachments inp))) @
     fst (contrib (replyTo_step (fromDomain_of env inp) (replyToDomain_of env inp))) @
     fst (contrib (spf_step (authResults inp))) @
     fst (contrib (freeProvider_step (options inp) (fromDomain_of env inp) (text_of inp)))"
  by (simp add: run_rules_contrib stage_list_def)

lemma score_split:
  "snd (run_rules env inp) =
     snd (contrib (keyword_stage (text_of inp))) +
     snd (contrib (url_stage (options inp) env (body inp))) +
     snd (contrib (link_stage env (body inp))) +
     snd (contrib (attachment_stage (attachments inp))) +
     snd (contrib (replyTo_step (fromDomain_of env inp) (replyToDomain_of env inp))) +
     snd (contrib (spf_step (authResults inp))) +
     snd (contrib (freeProvider_step (options inp) (fromDomain_of env inp) (text_of inp)))"
  by (simp add: run_rules_contrib stage_list_def)

lemma emits_stage:
  assumes "emits S f" and "\<And>ru. ru \<in> S \<Longrightarrow> stage_of ru = k" and "r \<in> set (fst (contrib f))"
  shows "reason_stage r = k"
proof -
  obtain ru where "ru \<in> S" "rule_of_reason r = Some ru"
    using emits_rule [OF assms(1) assms(3)] by blast
  then show ?thesis using assms(2) by (simp add: reason_stage_def)
qed

lemma sorted_map_const:
  assumes "\<And>x. x \<in> set xs \<Longrightarrow> g x = (k::nat)"
  shows "sorted (map g xs)"
  using assms by (induction xs) auto

lemma sum_list_pos_zero_iff:
  assumes "\<And>x. x \<in> set xs \<Longrightarrow> (0::int) < w x"
  shows "sum_list (map w xs) = 0 \<longleftrightarrow> xs = []"
proof
  assume z: "sum_list (map w xs) = 0"
  show "xs = []"
  proof (cases xs)
    case Nil then show ?thesis .
  next
    case (Cons x ys)
    have "0 \<le> sum_list (map w ys)"
      by (rule sum_list_nonneg) (use assms Cons in force)
    moreover have "0 < w x" using assms Cons by simp
    ultimately show ?thesis using z Cons by simp
  qed
qed simp

lemma reasons_sorted: "sorted (map reason_stage (fst (run_rules env inp)))"
proof -
  have 1: "reason_stage r = 1" if "r \<in> set (fst (contrib (keyword_stage (text_of inp))))" for r
    by (rule emits_stage [OF emits_keyword_stage _ that]) auto
  have 2: "reason_stage r = 2" if "r \<in> set (fst (contrib (url_stage (options inp) env (body inp))))" for r
    by (rule emits_stage [OF emits_url_stage _ that]) auto
  have 3: "reason_stage r = 3" if "r \<in> set (fst (contrib (link_stage env (body inp))))" for r
    by (rule emits_stage [OF emits_link_stage _ that]) auto
  have 4: "reason_stage r = 4" if "r \<in> set (fst (contrib (attachment_stage (attachments inp))))" for r
    by (rule emits_stage [OF emits_attachment_stage _ that]) auto
  have 5: "reason_stage r = 5"
    if "r \<in> set (fst (contrib (replyTo_step (fromDomain_of env inp) (replyToDomain_of env inp))))" for r
    by (rule emits_stage [OF emits_replyTo_step _ that]) auto
  have 6: "reason_stage r = 6" if "r \<in> set (fst (contrib (spf_step (authResults inp))))" for r
    by (rule emits_stage [OF emits_spf_step _ that]) auto
  have 7: "reason_stage r = 7"
    if "r \<in> set (fst (contrib (freeProvider_step (options inp) (fromDomain_of env inp) (text_of inp))))" for r
    by (rule emits_stage [OF emits_freeProvider_step _ that]) auto
  show ?thesis
    unfolding reasons_split
    by (auto simp add: sorted_append sorted_map_const [OF 1] sorted_map_const [OF 2]
        sorted_map_const [OF 3] sorted_map_const [OF 4] sorted_map_const [OF 5]
        sorted_map_const [OF 6] sorted_map_const [OF 7] 1 2 3 4 5 6 7)
qed

lemma reason_weight_pos:
  assumes "r \<in> set (fst (run_rules env inp))"
  shows "0 < reason_weight r"
proof -
  obtain ru where "rule_of_reason r = Some ru"
    using reasons_have_rules [OF assms] by blast
  then show ?thesis using weight_of_pos [of ru] by (simp add: reason_weight_def)
qed

lemma score_zero_iff: "snd (run_rules env inp) = 0 \<longleftrightarrow> fst (run_rules env inp) = []"
  unfolding score_eq_weights by (rule sum_list_pos_zero_iff) (rule reason_weight_pos)

lemma detect_fields:
  "score (detect env inp) = snd (run_rules env inp)"
  "reasons (detect env inp) = fst (run_rules env inp)"
  by (simp_all add: detect_def Let_def)

lemma not_emitted:
  assumes "emits S f" and "rule_of_reason r = Some ru" and "ru \<notin> S"
  shows "r \<notin> set (fst (contrib f))"
  using emits_rule [OF assms(1), of r] assms(2,3) by auto

lemma contrib_spf_step:
  "contrib (spf_step ar) =
     (if ar \<noteq> [] \<and> \<not> str_includes (toLowerCase ar) ''spf=pass''
      then ([''SPF not pass in Authentication-Results''], spfFailOrMissing WEIGHTS)
      else ([], 0))"
  by (simp add: contrib_def spf_step_eq fire_def)

lemma spf_reason_iff:
  "''SPF not pass in Authentication-Results'' \<in> set (fst (run_rules env inp)) \<longleftrightarrow>
     authResults inp \<noteq> [] \<and> \<not> str_includes (toLowerCase (authResults inp)) ''spf=pass''"
proof -
  let ?r = "''SPF not pass in Authentication-Results''"
  have 1: "?r \<notin> set (fst (contrib (keyword_stage (text_of inp))))"
    by (rule not_emitted [OF emits_keyword_stage rule_spf]) simp
  have 2: "?r \<notin> set (fst (contrib (url_stage (options inp) env (body inp))))"
    by (rule not_emitted [OF emits_url_stage rule_spf]) simp
  have 3: "?r \<notin> set (fst (contrib (link_stage env (body inp))))"
    by (rule not_emitted [OF emits_link_stage rule_spf]) simp
  have 4: "?r \<notin> set (fst (contrib (attachment_stage (attachments inp))))"
    by (rule not_emitted [OF emits_attachment_stage rule_spf]) simp
  have 5: "?r \<notin> set (fst (contrib (replyTo_step (fromDomain_of env inp) (replyToDomain_of env inp))))"
    by (rule not_emitted [OF emits_replyTo_step rule_spf]) simp
  have 7: "?r \<notin> set (fst (contrib (freeProvider_step (options inp) (fromDomain_of env inp) (text_of inp))))"
    by (rule not_emitted [OF emits_freeProvider_step rule_spf]) simp
  have "?r \<in> set (fst (run_rules env inp)) \<longleftrightarrow> ?r \<in> set (fst (contrib (spf_step (authResults inp))))"
    unfolding reasons_split using 1 2 3 4 5 7 by simp
  then show ?thesis by (simp add: contrib_spf_step)
qed

lemma stage_list_authResults:
  "fromDomain_of env (inp\<lparr>authResults := a\<rparr>) = fromDomain_of env inp"
  "replyToDomain_of env (inp\<lparr>authResults := a\<rparr>) = replyToDomain_of env inp"
  "text_of (inp\<lparr>authResults := a\<rparr>) = text_of inp"
  by (simp_all add: fromDomain_of_def replyToDomain_of_def text_of_def)

lemma score_without_spf:
  "snd (run_rules env inp) =
     snd (run_rules env (inp\<lparr>authResults := []\<rparr>)) + snd (contrib (spf_step (authResults inp)))"
  by (simp add: score_split stage_list_authResults contrib_spf_step)

subsection \<open>Score, order and the SPF rule\<close>

text \<open>
  C6. The score is the sum of the weights of the rule firings whose reasons are in the
  list: every reason is the reason of one rule of \<open>WEIGHTS\<close>, and the score is the sum
  of \<open>reason_weight\<close> over the list, each occurrence counted. The reasons stand in the
  order of the sections of \<open>detect\<close>: keywords, URL domains, link texts, attachments,
  From/Reply-To, SPF, free provider. The score is 0 exactly when no reason is reported.
\<close>

theorem score_is_sum_of_fired_weights:
  "score (detect env inp) = sum_list (map reason_weight (reasons (detect env inp))) \<and>
   list_all (\<lambda>r. rule_of_reason r \<noteq> None) (reasons (detect env inp)) \<and>
   sorted (map reason_stage (reasons (detect env inp))) \<and>
   (score (detect env inp) = 0 \<longleftrightarrow> reasons (detect env inp) = [])"
proof -
  have "list_all (\<lambda>r. rule_of_reason r \<noteq> None) (fst (run_rules env inp))"
    unfolding list_all_iff using reasons_have_rules [of _ env inp] by auto
  then show ?thesis
    unfolding detect_fields
    using score_eq_weights [of env inp] reasons_sorted [of env inp] score_zero_iff [of env inp]
    by blast
qed

text \<open>
  C10. The reason of the SPF rule is reported exactly when \<open>authResults\<close> is not empty
  and its lower-case form does not contain \<open>spf=pass\<close>; with an empty \<open>authResults\<close> it
  is never reported. The score is the score of the same input with \<open>authResults\<close>
  emptied, plus the weight \<open>spfFailOrMissing\<close> when the rule fires.
\<close>

theorem spf_rule_needs_nonempty_header:
  "(''SPF not pass in Authentication-Results'' \<in> set (reasons (detect env inp)) \<longleftrightarrow>
      authResults inp \<noteq> [] \<and> \<not> str_includes (toLowerCase (authResults inp)) ''spf=pass'') \<and>
   ''SPF not pass in Authentication-Results''
      \<notin> set (reasons (detect env (inp\<lparr>authResults := []\<rparr>))) \<and>
   score (detect env inp) =
     score (detect env (inp\<lparr>authResults := []\<rparr>)) +
     (if authResults inp \<noteq> [] \<and> \<not> str_includes (toLowerCase (authResults inp)) ''spf=pass''
      then spfFailOrMissing WEIGHTS else 0)"
proof -
  have "''SPF not pass in Authentication-Results''
      \<notin> set (fst (run_rules env (inp\<lparr>authResults := []\<rparr>)))"
    by (simp add: spf_reason_iff)
  moreover have "snd (run_rules env inp) =
     snd (run_rules env (inp\<lparr>authResults := []\<rparr>)) +
     (if authResults inp \<noteq> [] \<and> \<not> str_includes (toLowerCase (authResults inp)) ''spf=pass''
      then spfFailOrMissing WEIGHTS else 0)"
    by (simp add: score_without_spf [of env inp] contrib_spf_step)
  ultimately show ?thesis
    unfolding detect_fields using spf_reason_iff [of env inp] by blast
qed

lemma brands_not_lookalikes:
  "list_all (\<lambda>b. list_all (\<lambda>b'. \<not> looksLikeBrand b b') HIGH_VALUE_BRANDS) HIGH_VALUE_BRANDS"
  by code_simp

lemma brands_trigger_no_url_rule:
  "list_all (\<lambda>b. b \<noteq> [] \<and> \<not> 40 < length b \<and> \<not> startsWith b ''xn--'' \<and> \<not> suspicious_cue b) HIGH_VALUE_BRANDS"
  by code_simp

lemma brand_loop_none:
  assumes "\<And>b. b \<in> set bs \<Longrightarrow> \<not> looksLikeBrand d b"
  shows "brand_loop d bs st = st"
  using assms by (induction bs) simp_all

lemma url_step_brand:
  assumes "b \<in> set HIGH_VALUE_BRANDS" and "safeGetDomainFromUrl env url = Some b"
  shows "url_step opts env url st = st"
proof -
  have 1: "b \<noteq> [] \<and> \<not> 40 < length b \<and> \<not> startsWith b ''xn--'' \<and> \<not> suspicious_cue b"
    using brands_trigger_no_url_rule assms(1) unfolding list_all_iff by blast
  have 2: "brand_loop b HIGH_VALUE_BRANDS st = st"
    by (rule brand_loop_none) (use brands_not_lookalikes assms(1) in \<open>unfold list_all_iff, blast\<close>)
  show ?thesis
    using 1 2 assms(2)
    by (simp add: url_step_def Let_def longDomain_rule_def punycode_rule_def
        suspiciousUrl_rule_def brandLookalike_rule_def)
qed

lemma brand_loop_reason:
  assumes "r \<in> set (fst (contrib (brand_loop d bs)))"
  shows "\<exists>brand \<in> set bs. looksLikeBrand d brand \<and>
           r = ''Brand lookalike detected: '' @ d @ '' ~ '' @ brand"
  using assms
proof (induction bs)
  case Nil
  then show ?case by (simp add: contrib_def)
next
  case (Cons b bs)
  show ?case
  proof (cases "looksLikeBrand d b")
    case True
    then have c: "contrib (brand_loop d (b # bs)) =
        ([''Brand lookalike detected: '' @ d @ '' ~ '' @ b], brandLookalike WEIGHTS)"
      by (simp add: contrib_def fire_def)
    have "r = ''Brand lookalike detected: '' @ d @ '' ~ '' @ b"
      using Cons.prems unfolding c by simp
    with True show ?thesis by simp
  next
    case False
    then have c: "contrib (brand_loop d (b # bs)) = contrib (brand_loop d bs)"
      by (simp add: contrib_def)
    have "r \<in> set (fst (contrib (brand_loop d bs)))"
      using Cons.prems unfolding c .
    from Cons.IH [OF this] show ?thesis by auto
  qed
qed

lemma url_step_brand_reason:
  assumes "r \<in> set (fst (contrib (url_step opts env u)))"
    and "rule_of_reason r = Some BrandLookalike"
  shows "\<exists>d brand. safeGetDomainFromUrl env u = Some d \<and> brand \<in> set HIGH_VALUE_BRANDS \<and>
           looksLikeBrand d brand \<and> r = ''Brand lookalike detected: '' @ d @ '' ~ '' @ brand"
proof (cases "safeGetDomainFromUrl env u = None \<or> safeGetDomainFromUrl env u = Some []")
  case True
  with assms(1) show ?thesis by (simp add: url_step_skip [OF True] contrib_def)
next
  case False
  then obtain d where d: "safeGetDomainFromUrl env u = Some d" "d \<noteq> []" by auto
  let ?f12 = "\<lambda>st. punycode_rule d (longDomain_rule d st)"
  let ?f123 = "\<lambda>st. suspiciousUrl_rule d (punycode_rule d (longDomain_rule d st))"
  have a1: "additive (longDomain_rule d)" by (rule emits_additive [OF emits_longDomain_rule])
  have a2: "additive (punycode_rule d)" by (rule emits_additive [OF emits_punycode_rule])
  have a3: "additive (suspiciousUrl_rule d)" by (rule emits_additive [OF emits_suspiciousUrl_rule])
  have a4: "additive (brandLookalike_rule opts d)"
    by (rule emits_additive [OF emits_brandLookalike_rule])
  have a12: "additive ?f12" by (rule additive_comp [OF a1 a2])
  have a123: "additive ?f123" by (rule additive_comp [OF a12 a3])
  have "fst (contrib (url_step opts env u)) =
      ((fst (contrib (longDomain_rule d)) @ fst (contrib (punycode_rule d)))
        @ fst (contrib (suspiciousUrl_rule d))) @ fst (contrib (brandLookalike_rule opts d))"
    unfolding url_step_rules [OF d]
    by (simp only: contrib_comp [OF a123 a4] contrib_comp [OF a12 a3] contrib_comp [OF a1 a2] fst_conv)
  moreover have "r \<notin> set (fst (contrib (longDomain_rule d)))"
    by (rule not_emitted [OF emits_longDomain_rule assms(2)]) simp
  moreover have "r \<notin> set (fst (contrib (punycode_rule d)))"
    by (rule not_emitted [OF emits_punycode_rule assms(2)]) simp
  moreover have "r \<notin> set (fst (contrib (suspiciousUrl_rule d)))"
    by (rule not_emitted [OF emits_suspiciousUrl_rule assms(2)]) simp
  ultimately have "r \<in> set (fst (contrib (brandLookalike_rule opts d)))"
    using assms(1) by simp
  moreover have "contrib (brandLookalike_rule opts d) =
      (if strictBrandLookalikes opts then contrib (brand_loop d HIGH_VALUE_BRANDS) else ([], 0))"
    by (simp add: contrib_def brandLookalike_rule_def)
  ultimately have "r \<in> set (fst (contrib (brand_loop d HIGH_VALUE_BRANDS)))"
    by (simp split: if_splits)
  from brand_loop_reason [OF this] d(1) show ?thesis by blast
qed

lemma contrib_url_stage:
  "contrib (url_stage opts env b) =
     (concat (map (\<lambda>u. fst (contrib (url_step opts env u))) (extractAllUrls b)),
      sum_list (map (\<lambda>u. snd (contrib (url_step opts env u))) (extractAllUrls b)))"
proof -
  have "url_stage opts env b = fold (url_step opts env) (extractAllUrls b)"
    by (rule ext) (simp add: url_stage_def)
  then show ?thesis
    by (simp add: contrib_fold emits_additive [OF emits_url_step])
qed

lemma brands_no_space: "list_all (\<lambda>b. CHR '' '' \<notin> set b) HIGH_VALUE_BRANDS"
  by code_simp

lemma brand_reason_inj:
  assumes eq: "d @ '' ~ '' @ brand = b @ '' ~ '' @ b'"
    and "CHR '' '' \<notin> set brand" and "CHR '' '' \<notin> set b'"
  shows "d = b \<and> brand = b'"
proof -
  have eq': "(d @ '' ~ '') @ brand = (b @ '' ~ '') @ b'" using eq by simp
  then consider us where "d @ '' ~ '' = (b @ '' ~ '') @ us" "us @ brand = b'"
    | us where "(d @ '' ~ '') @ us = b @ '' ~ ''" "brand = us @ b'"
    unfolding append_eq_append_conv2 by blast
  then show ?thesis
  proof cases
    case 1
    have "us = []"
    proof (rule ccontr)
      assume "us \<noteq> []"
      then have l1: "last ((b @ '' ~ '') @ us) = last us" by (rule last_appendR)
      have l2: "last (d @ '' ~ '') = CHR '' ''" by simp
      have "last us = CHR '' ''" using arg_cong [OF 1(1), of last] unfolding l1 l2 by simp
      then have "CHR '' '' \<in> set us" using \<open>us \<noteq> []\<close> last_in_set by metis
      then show False using 1(2) assms(3) by auto
    qed
    with 1 show ?thesis by simp
  next
    case 2
    have "us = []"
    proof (rule ccontr)
      assume "us \<noteq> []"
      then have l1: "last ((d @ '' ~ '') @ us) = last us" by (rule last_appendR)
      have l2: "last (b @ '' ~ '') = CHR '' ''" by simp
      have "last us = CHR '' ''" using arg_cong [OF 2(1), of last] unfolding l1 l2 by simp
      then have "CHR '' '' \<in> set us" using \<open>us \<noteq> []\<close> last_in_set by metis
      then show False using 2(2) assms(2) by auto
    qed
    with 2 show ?thesis by simp
  qed
qed

lemma no_brand_reason_for_brand_domain:
  assumes "b \<in> set HIGH_VALUE_BRANDS" and "b' \<in> set HIGH_VALUE_BRANDS"
  shows "''Brand lookalike detected: '' @ b @ '' ~ '' @ b' \<notin> set (fst (run_rules env inp))"
proof
  let ?r = "''Brand lookalike detected: '' @ b @ '' ~ '' @ b'"
  assume "?r \<in> set (fst (run_rules env inp))"
  moreover have ru: "rule_of_reason ?r = Some BrandLookalike" by (rule rule_brand)
  have "?r \<notin> set (fst (contrib (keyword_stage (text_of inp))))"
    by (rule not_emitted [OF emits_keyword_stage ru]) simp
  moreover have "?r \<notin> set (fst (contrib (link_stage env (body inp))))"
    by (rule not_emitted [OF emits_link_stage ru]) simp
  moreover have "?r \<notin> set (fst (contrib (attachment_stage (attachments inp))))"
    by (rule not_emitted [OF emits_attachment_stage ru]) simp
  moreover have "?r \<notin> set (fst (contrib (replyTo_step (fromDomain_of env inp) (replyToDomain_of env inp))))"
    by (rule not_emitted [OF emits_replyTo_step ru]) simp
  moreover have "?r \<notin> set (fst (contrib (spf_step (authResults inp))))"
    by (rule not_emitted [OF emits_spf_step ru]) simp
  moreover have "?r \<notin> set (fst (contrib (freeProvider_step (options inp) (fromDomain_of env inp) (text_of inp))))"
    by (rule not_emitted [OF emits_freeProvider_step ru]) simp
  ultimately have "?r \<in> set (fst (contrib (url_stage (options inp) env (body inp))))"
    unfolding reasons_split by simp
  then obtain u where "?r \<in> set (fst (contrib (url_step (options inp) env u)))"
    unfolding contrib_url_stage by auto
  from url_step_brand_reason [OF this ru]
  obtain d brand where *: "brand \<in> set HIGH_VALUE_BRANDS" "looksLikeBrand d brand"
      "?r = ''Brand lookalike detected: '' @ d @ '' ~ '' @ brand"
    by blast
  have "d @ '' ~ '' @ brand = b @ '' ~ '' @ b'"
    using *(3) by simp
  moreover have "CHR '' '' \<notin> set brand" "CHR '' '' \<notin> set b'"
    using brands_no_space *(1) assms(2) unfolding list_all_iff by blast+
  ultimately have "d = b \<and> brand = b'" by (rule brand_reason_inj)
  with *(2) have "looksLikeBrand b b'" by simp
  moreover have "\<not> looksLikeBrand b b'"
    using brands_not_lookalikes assms unfolding list_all_iff by blast
  ultimately show False by contradiction
qed

subsection \<open>Blank fields and URLs without a domain\<close>




















subsection \<open>What the extraction collects\<close>













subsection \<open>Monotonicity\<close>



















lemma toLowerCase_append: "toLowerCase (a @ b) = toLowerCase a @ toLowerCase b"
  by (simp add: toLowerCase_def)






section \<open>The claims\<close>

text \<open>
  C1. For every input, \<open>detect\<close> sets the category to Suspicious when the score is at
  least twice \<open>options.threshold\<close>, otherwise to Needs Review when the score is at least
  the threshold, otherwise to Likely Safe. The threshold comes from the caller; the
  component starts it at 7.
\<close>

theorem detect_category:
  "category (detect env inp) =
     (if 2 * threshold (options inp) \<le> score (detect env inp) then Suspicious
      else if threshold (options inp) \<le> score (detect env inp) then NeedsReview
      else LikelySafe)
   \<and> threshold (options (analyze_input initial_state)) = 7"
  by (simp add: detect_def categorize_def Let_def analyze_input_def initial_state_def)

text \<open>
  C9. A listed brand domain does not look like itself, nor like any other listed brand.
  A URL of the body whose domain is a listed brand domain leaves both accumulators as
  they are, with the strict lookalike check on as well as off; and no reason of the
  form \<open>Brand lookalike detected: b ~ b'\<close> with listed \<open>b\<close> and \<open>b'\<close> is ever reported.
\<close>

theorem brand_domain_is_no_lookalike:
  "b \<in> set HIGH_VALUE_BRANDS \<Longrightarrow>
     \<not> looksLikeBrand b b \<and>
     (\<forall>b' \<in> set HIGH_VALUE_BRANDS. \<not> looksLikeBrand b b') \<and>
     (\<forall>opts env url st.
        safeGetDomainFromUrl env url = Some b \<longrightarrow> url_step opts env url st = st) \<and>
     (\<forall>env inp. \<forall>b' \<in> set HIGH_VALUE_BRANDS.
        ''Brand lookalike detected: '' @ b @ '' ~ '' @ b' \<notin> set (reasons (detect env inp)))"
proof -
  assume b: "b \<in> set HIGH_VALUE_BRANDS"
  have 1: "\<forall>b' \<in> set HIGH_VALUE_BRANDS. \<not> looksLikeBrand b b'"
    using brands_not_lookalikes b unfolding list_all_iff by blast
  have 2: "\<forall>opts env url st.
        safeGetDomainFromUrl env url = Some b \<longrightarrow> url_step opts env url st = st"
    using url_step_brand [OF b] by blast
  have 3: "\<forall>env inp. \<forall>b' \<in> set HIGH_VALUE_BRANDS.
        ''Brand lookalike detected: '' @ b @ '' ~ '' @ b' \<notin> set (reasons (detect env inp))"
    unfolding detect_fields using no_brand_reason_for_brand_domain [OF b] by blast
  from 1 2 3 b show ?thesis by blast
qed

theorem brand_domain_is_no_lookalike_witness:
  "''paypal.com'' \<in> set HIGH_VALUE_BRANDS \<and>
   \<not> looksLikeBrand ''paypal.com'' ''paypal.com'' \<and>
   safeGetDomainFromUrl example_env ''https://www.paypal.com/signin'' = Some ''paypal.com'' \<and>
   url_step \<lparr> treatFreeProvidersAsSuspicious = True, strictBrandLookalikes = True, threshold = 7 \<rparr>
      example_env ''https://www.paypal.com/signin'' ([], 0) = ([], 0) \<and>
   ''Brand lookalike detected: paypal.com ~ paypal.com''
      \<notin> set (reasons (analyze example_env
           (initial_state \<lparr> ui_body := ''Sign in at https://www.paypal.com/signin today'' \<rparr>)))"
proof -
  have h: "''paypal.com'' \<in> set HIGH_VALUE_BRANDS" by (simp add: HIGH_VALUE_BRANDS_def)
  have u: "safeGetDomainFromUrl example_env ''https://www.paypal.com/signin'' = Some ''paypal.com''"
    by code_simp
  show ?thesis
    using h u brand_domain_is_no_lookalike [OF h] by (simp add: analyze_def)
qed

text \<open>
  C2. The suspicious example of the component, analysed with both toggles on and the
  threshold 7: the score is 28 and the category Suspicious. The nine reasons are three
  keyword reasons, the suspicious keyword in the domain \<open>com-login.cn\<close>, the link-text
  mismatch, the macro-enabled and the dangerous attachment, the From/Reply-To mismatch
  and the SPF reason. No brand lookalike is among them: the lookalike check sees only
  the registered domain \<open>com-login.cn\<close> of the link, which has lost the label
  \<open>secure-paypal\<close>, and never sees the sender domain \<open>paypa1.com\<close>.
\<close>

theorem suspicious_example_result:
  \<open>analyze example_env (fillSuspiciousExample initial_state) =
     \<lparr> score = 28,
       reasons =
         [''Contains suspicious phrase: "urgent"'',
          ''Contains suspicious phrase: "verify"'',
          ''Contains suspicious phrase: "click here"'',
          ''Suspicious keyword in domain: com-login.cn'',
          ''Link text ("PayPal Secure") does not match destination (http://secure-paypal.com-login.cn)'',
          ''Macro-enabled Office attachment: invoice.docm'',
          ''Dangerous attachment: setup.exe'',
          ''From (paypa1.com) '' @ neq_sign @ '' Reply-To (gmail.com)'',
          ''SPF not pass in Authentication-Results''],
       category = Suspicious \<rparr>\<close>
  by code_simp

text \<open>
  C5. The safe example of the component, analysed with the settings the component
  starts with: score 0, no reason, Likely Safe.
\<close>

theorem safe_example_result:
  "analyze example_env (fillSafeExample initial_state) =
     \<lparr> score = 0, reasons = [], category = LikelySafe \<rparr>"
  by code_simp









end
